theory Spec2Isabelle
  imports Main
begin

section \<open>The dining philosophers of \<^verbatim>\<open>src/main.cpp\<close>\<close>

text \<open>
  The program starts \<^verbatim>\<open>NUM_PHILOSOPHERS\<close> threads, each running the function
  \<^verbatim>\<open>philosopher\<close> for ever. The threads share one array of binary semaphores,
  \<^verbatim>\<open>chopsticks\<close>, and nothing else. The model is the usual interleaving one: a semaphore
  operation is atomic, a thread is a program point (its \<open>phase\<close>), and an execution is
  a schedule, the list of the threads that take the successive steps.

  Philosopher ids and array indices are the values \<open>0 .. NUM_PHILOSOPHERS - 1\<close> of the loop
  counter of \<^verbatim>\<open>main\<close>; they are natural numbers here (the \<^verbatim>\<open>int\<close> arithmetic of the
  source stays far from its bounds). The number of philosophers is a parameter \<open>n\<close> of every
  definition, so that the properties are proved for every ring size; the program's value is
  the constant \<open>NUM_PHILOSOPHERS\<close>.
\<close>

subsection \<open>The chopsticks: binary semaphores\<close>

definition NUM_PHILOSOPHERS :: nat where
  "NUM_PHILOSOPHERS = 5"

datatype error = ProtocolViolation | OutOfBounds

datatype 'a outcome = Blocked | Failed error | Completed 'a

text \<open>
  A semaphore is its counter. Every chopstick is initialised to 1 (available): the source
  lists five such initialisers, one per philosopher, and the model has \<open>n\<close> of them.
  \<^verbatim>\<open>acquire\<close> waits until the counter is positive and decrements it: on a counter of 0 the
  caller cannot take the step (\<open>None\<close>). \<^verbatim>\<open>release\<close> increments the counter; for a binary
  semaphore the counter must not pass 1, and a release that would do so is outside the
  contract of the semaphore (\<open>ProtocolViolation\<close>).
\<close>

definition chopsticks_init :: "nat \<Rightarrow> nat list" where
  "chopsticks_init n = replicate n 1"

definition acquire :: "nat \<Rightarrow> nat option" where
  "acquire v = (if 0 < v then Some (v - 1) else None)"

definition release :: "nat \<Rightarrow> error + nat" where
  "release v = (if v < 1 then Inr (v + 1) else Inl ProtocolViolation)"

subsection \<open>The philosopher\<close>

definition leftChopstick :: "nat \<Rightarrow> nat" where
  "leftChopstick philosopherID = philosopherID"

definition rightChopstick :: "nat \<Rightarrow> nat \<Rightarrow> nat" where
  "rightChopstick n philosopherID = (philosopherID + 1) mod n"

text \<open>
  The program points of the loop body of \<^verbatim>\<open>philosopher\<close>:
  \<^item> \<open>Thinking\<close>: in \<^verbatim>\<open>think\<close> (line 148);
  \<^item> \<open>Hungry\<close>: before the first \<^verbatim>\<open>acquire\<close> (line 156 or 163);
  \<^item> \<open>HoldingOne\<close>: before the second \<^verbatim>\<open>acquire\<close> (line 159 or 166);
  \<^item> \<open>Eating\<close>: in \<^verbatim>\<open>eat\<close> (line 170);
  \<^item> \<open>PutLeft\<close>: before \<^verbatim>\<open>chopsticks[leftChopstick].release()\<close> (line 173);
  \<^item> \<open>PutRight\<close>: before \<^verbatim>\<open>chopsticks[rightChopstick].release()\<close> (line 174).
\<close>

datatype phase = Thinking | Hungry | HoldingOne | Eating | PutLeft | PutRight

datatype stmt = Think | Acquire nat | Eat | Release nat

text \<open>
  \<open>philosopher n philosopherID p\<close> is the statement the thread executes at program point
  \<open>p\<close> and the program point that follows it. The loop has no exit.
\<close>

fun philosopher :: "nat \<Rightarrow> nat \<Rightarrow> phase \<Rightarrow> stmt \<times> phase" where
  "philosopher n philosopherID Thinking = (Think, Hungry)"
| "philosopher n philosopherID Hungry =
     (if philosopherID mod 2 = 0
      then (Acquire (rightChopstick n philosopherID), HoldingOne)
      else (Acquire (leftChopstick philosopherID), HoldingOne))"
| "philosopher n philosopherID HoldingOne =
     (if philosopherID mod 2 = 0
      then (Acquire (leftChopstick philosopherID), Eating)
      else (Acquire (rightChopstick n philosopherID), Eating))"
| "philosopher n philosopherID Eating = (Eat, PutLeft)"
| "philosopher n philosopherID PutLeft = (Release (leftChopstick philosopherID), PutRight)"
| "philosopher n philosopherID PutRight = (Release (rightChopstick n philosopherID), Thinking)"

text \<open>
  The effect of a statement on the array of semaphores. An index outside the array is
  undefined behaviour in the source; the model makes it the error \<open>OutOfBounds\<close>.
\<close>

fun perform :: "stmt \<Rightarrow> nat list \<Rightarrow> nat list outcome" where
  "perform Think cs = Completed cs"
| "perform Eat cs = Completed cs"
| "perform (Acquire c) cs =
     (if c < length cs
      then (case acquire (cs ! c) of None \<Rightarrow> Blocked | Some v \<Rightarrow> Completed (cs[c := v]))
      else Failed OutOfBounds)"
| "perform (Release c) cs =
     (if c < length cs
      then (case release (cs ! c) of Inl e \<Rightarrow> Failed e | Inr v \<Rightarrow> Completed (cs[c := v]))
      else Failed OutOfBounds)"

subsection \<open>The system\<close>

record state =
  phases :: "phase list"
  chopsticks :: "nat list"

text \<open>
  \<^verbatim>\<open>main\<close> launches one thread per id, counting up from 0. A thread that is launched
  starts in \<^verbatim>\<open>think\<close>; a thread not launched yet behaves as one that has not been
  scheduled yet, so the initial state has every philosopher \<open>Thinking\<close>.
\<close>

function main_loop :: "nat \<Rightarrow> nat \<Rightarrow> nat list" where
  "main_loop n i = (if i < n then i # main_loop n (i + 1) else [])"
  by pat_completeness auto
termination
  by (relation "measure (\<lambda>(n, i). n - i)") auto

declare main_loop.simps [simp del]

definition main :: "nat \<Rightarrow> nat list" where
  "main n = main_loop n 0"

definition initial :: "nat \<Rightarrow> state" where
  "initial n = \<lparr>phases = map (\<lambda>philosopherID. Thinking) (main n), chopsticks = chopsticks_init n\<rparr>"

text \<open>One step of thread \<open>i\<close>: the statement at its program point, on the shared array.\<close>

definition step :: "nat \<Rightarrow> nat \<Rightarrow> state \<Rightarrow> (stmt \<times> state) outcome" where
  "step n i s =
     (case philosopher n i (phases s ! i) of
        (st, p') \<Rightarrow>
          (case perform st (chopsticks s) of
             Blocked \<Rightarrow> Blocked
           | Failed e \<Rightarrow> Failed e
           | Completed cs' \<Rightarrow> Completed (st, \<lparr>phases = (phases s)[i := p'], chopsticks = cs'\<rparr>)))"

text \<open>
  An execution follows a schedule and records the statements completed, with the thread
  that completed each. A schedule that names a thread that does not exist, or a thread that
  cannot take its step, is not an execution (\<open>None\<close>).
\<close>

type_synonym trace = "(nat \<times> stmt) list"

fun exec :: "nat \<Rightarrow> nat list \<Rightarrow> trace \<times> state \<Rightarrow> (trace \<times> state) option" where
  "exec n [] cfg = Some cfg"
| "exec n (i # sched) (tr, s) =
     (if i < n
      then (case step n i s of
              Completed (st, s') \<Rightarrow> exec n sched (tr @ [(i, st)], s')
            | _ \<Rightarrow> None)
      else None)"

text \<open>
  A thread holds a chopstick when it has completed more \<^verbatim>\<open>acquire\<close>s than
  \<^verbatim>\<open>release\<close>s on it.
\<close>

definition holds :: "trace \<Rightarrow> nat \<Rightarrow> nat \<Rightarrow> bool" where
  "holds tr i c = (count_list tr (i, Release c) < count_list tr (i, Acquire c))"



text \<open>
  The statements a thread has completed, oldest first, and one iteration of the loop as the
  specification describes it: think, acquire the two chopsticks (right then left for an even
  id, left then right for an odd id), eat, release left, release right. \<open>progress\<close> is
  the number of statements of the current iteration that lie behind a program point.
\<close>

definition own :: "nat \<Rightarrow> trace \<Rightarrow> stmt list" where
  "own i tr = map snd (filter (\<lambda>(j, st). j = i) tr)"



text \<open>The philosophers that use chopstick \<open>c\<close>.\<close>

definition users :: "nat \<Rightarrow> nat \<Rightarrow> nat list" where
  "users n c = filter (\<lambda>i. leftChopstick i = c \<or> rightChopstick n i = c) [0..<n]"

text \<open>
  A thread is blocked when its step is; it waits for the thread that holds the chopstick
  it is trying to acquire.
\<close>

definition blocked :: "nat \<Rightarrow> state \<Rightarrow> nat \<Rightarrow> bool" where
  "blocked n s i = (step n i s = Blocked)"

definition waits_for :: "nat \<Rightarrow> trace \<Rightarrow> state \<Rightarrow> nat \<Rightarrow> nat \<Rightarrow> bool" where
  "waits_for n tr s i j =
     (blocked n s i \<and> (case fst (philosopher n i (phases s ! i)) of Acquire c \<Rightarrow> holds tr j c | _ \<Rightarrow> False))"

subsection \<open>Notions used in the proofs\<close>

text \<open>
  \<open>holding n i p\<close> lists, from the text of the loop, the chopsticks that philosopher \<open>i\<close>
  has acquired and not yet released when it stands at program point \<open>p\<close>; \<open>holders\<close>
  collects the philosophers that stand at such a point for a chopstick. The invariant
  ties both to the semaphores and to the trace: a chopstick's counter is 1 when nobody
  is at such a point and 0 when exactly one philosopher is, and \<open>holds\<close> (read from the
  trace) agrees with \<open>holding\<close> (read from the program point). \<open>rank\<close> is an order on
  the chopsticks under which every philosopher acquires upwards.
\<close>

fun holding :: "nat \<Rightarrow> nat \<Rightarrow> phase \<Rightarrow> nat set" where
  "holding n i Thinking = {}"
| "holding n i Hungry = {}"
| "holding n i HoldingOne = {if i mod 2 = 0 then rightChopstick n i else leftChopstick i}"
| "holding n i Eating = {leftChopstick i, rightChopstick n i}"
| "holding n i PutLeft = {leftChopstick i, rightChopstick n i}"
| "holding n i PutRight = {rightChopstick n i}"

definition holders :: "nat \<Rightarrow> state \<Rightarrow> nat \<Rightarrow> nat set" where
  "holders n s c = {i. i < n \<and> c \<in> holding n i (phases s ! i)}"

definition sem_inv :: "nat \<Rightarrow> state \<Rightarrow> bool" where
  "sem_inv n s =
     (length (phases s) = n \<and> length (chopsticks s) = n \<and>
      (\<forall>c<n. (holders n s c = {} \<and> chopsticks s ! c = 1) \<or>
              (\<exists>i. holders n s c = {i} \<and> chopsticks s ! c = 0)))"

definition count_inv :: "nat \<Rightarrow> trace \<Rightarrow> state \<Rightarrow> bool" where
  "count_inv n tr s =
     (\<forall>i<n. \<forall>c. count_list tr (i, Acquire c) =
          count_list tr (i, Release c) + (if c \<in> holding n i (phases s ! i) then 1 else 0))"

definition invariant :: "nat \<Rightarrow> trace \<Rightarrow> state \<Rightarrow> bool" where
  "invariant n tr s = (sem_inv n s \<and> count_inv n tr s)"

definition rank :: "nat \<Rightarrow> nat" where
  "rank c = (if c mod 2 = 1 then 0 else if c = 0 then 1 else 2)"

section \<open>The invariant\<close>

lemma main_loop_upt: "main_loop n i = [i..<n]"
proof (induction n i rule: main_loop.induct)
  case (1 n i)
  show ?case
  proof (cases "i < n")
    case True
    have "main_loop n i = i # main_loop n (i + 1)"
      using True by (subst main_loop.simps) simp
    also have "main_loop n (i + 1) = [i + 1..<n]"
      by (rule 1 [OF True])
    finally show ?thesis
      using True by (simp add: upt_conv_Cons)
  next
    case False
    then show ?thesis
      by (subst main_loop.simps) simp
  qed
qed

lemma main_upt: "main n = [0..<n]"
  by (simp add: main_def main_loop_upt)

lemma left_less: "i < n \<Longrightarrow> leftChopstick i < n"
  by (simp add: leftChopstick_def)

lemma right_less: "0 < n \<Longrightarrow> rightChopstick n i < n"
  by (simp add: rightChopstick_def)

lemma right_neq_left: "2 \<le> n \<Longrightarrow> i < n \<Longrightarrow> rightChopstick n i \<noteq> leftChopstick i"
proof -
  assume n: "2 \<le> n" and i: "i < n"
  show ?thesis
  proof (cases "i + 1 < n")
    case True
    then show ?thesis by (simp add: rightChopstick_def leftChopstick_def)
  next
    case False
    with i have "i + 1 = n" by simp
    with n show ?thesis by (auto simp: rightChopstick_def leftChopstick_def)
  qed
qed

lemma philosopher_effect:
  assumes "2 \<le> n" "i < n" "philosopher n i p = (st, p')"
  shows "case st of
           Acquire c \<Rightarrow> c < n \<and> c \<notin> holding n i p \<and> holding n i p' = insert c (holding n i p)
         | Release c \<Rightarrow> c < n \<and> c \<in> holding n i p \<and> holding n i p' = holding n i p - {c}
         | _ \<Rightarrow> holding n i p' = holding n i p"
  using assms right_neq_left[of n i] left_less[of i n] right_less[of n i]
  by (cases p) (auto split: if_splits)

lemma holders_update:
  "i < n \<Longrightarrow> length (phases s) = n \<Longrightarrow>
   holders n \<lparr>phases = (phases s)[i := p'], chopsticks = cs'\<rparr> c =
     (if c \<in> holding n i p' then insert i (holders n s c) else holders n s c - {i})"
  by (auto simp: holders_def nth_list_update)

lemma holders_mem: "i < n \<Longrightarrow> (i \<in> holders n s c) = (c \<in> holding n i (phases s ! i))"
  by (simp add: holders_def)

lemma invariant_initial: "invariant n [] (initial n)"
  by (simp add: invariant_def sem_inv_def count_inv_def initial_def main_upt chopsticks_init_def holders_def)

lemma holders_same:
  "i < n \<Longrightarrow> length (phases s) = n \<Longrightarrow>
   (c \<in> holding n i p') = (c \<in> holding n i (phases s ! i)) \<Longrightarrow>
   holders n \<lparr>phases = (phases s)[i := p'], chopsticks = cs'\<rparr> c = holders n s c"
  by (auto simp: holders_def nth_list_update)

lemma step_Completed:
  assumes "step n i s = Completed (st, s')"
  obtains p' cs' where "philosopher n i (phases s ! i) = (st, p')"
    and "perform st (chopsticks s) = Completed cs'"
    and "s' = \<lparr>phases = (phases s)[i := p'], chopsticks = cs'\<rparr>"
  using assms by (auto simp: step_def split: prod.splits outcome.splits)

lemma perform_Acquire:
  "perform (Acquire c) cs = Completed cs' \<Longrightarrow> c < length cs \<and> 0 < cs ! c \<and> cs' = cs[c := cs ! c - 1]"
  by (auto simp: acquire_def split: if_splits)

lemma perform_Release:
  "perform (Release c) cs = Completed cs' \<Longrightarrow> c < length cs \<and> cs ! c = 0 \<and> cs' = cs[c := 1]"
  by (auto simp: release_def split: if_splits)

lemma sem_inv_step:
  assumes inv: "sem_inv n s" and n: "2 \<le> n" and i: "i < n"
    and st: "step n i s = Completed (st, s')"
  shows "sem_inv n s'"
proof -
  from st obtain p' cs' where ph: "philosopher n i (phases s ! i) = (st, p')"
    and pf: "perform st (chopsticks s) = Completed cs'"
    and s': "s' = \<lparr>phases = (phases s)[i := p'], chopsticks = cs'\<rparr>"
    by (rule step_Completed)
  from inv have lp: "length (phases s) = n" and lc: "length (chopsticks s) = n"
    and sem: "\<And>c. c < n \<Longrightarrow> (holders n s c = {} \<and> chopsticks s ! c = 1) \<or>
              (\<exists>j. holders n s c = {j} \<and> chopsticks s ! c = 0)"
    by (auto simp: sem_inv_def)
  note eff = philosopher_effect [OF n i ph]
  show ?thesis
  proof (cases st)
    case Think
    with pf eff have "cs' = chopsticks s" "holding n i p' = holding n i (phases s ! i)"
      by simp_all
    then have "holders n s' c = holders n s c" for c
      unfolding s' using holders_same [OF i lp] by simp
    with inv \<open>cs' = chopsticks s\<close> show ?thesis
      by (simp add: sem_inv_def s')
  next
    case Eat
    with pf eff have "cs' = chopsticks s" "holding n i p' = holding n i (phases s ! i)"
      by simp_all
    then have "holders n s' c = holders n s c" for c
      unfolding s' using holders_same [OF i lp] by simp
    with inv \<open>cs' = chopsticks s\<close> show ?thesis
      by (simp add: sem_inv_def s')
  next
    case (Acquire c0)
    with eff have c0: "c0 < n" and notin: "c0 \<notin> holding n i (phases s ! i)"
      and h': "holding n i p' = insert c0 (holding n i (phases s ! i))"
      by simp_all
    from perform_Acquire [OF pf [unfolded Acquire]]
    have pos: "0 < chopsticks s ! c0"
      and cs': "cs' = (chopsticks s)[c0 := chopsticks s ! c0 - 1]"
      by simp_all
    from sem [OF c0] pos have free: "holders n s c0 = {}" and one: "chopsticks s ! c0 = 1"
      by auto
    have "(holders n s' c = {} \<and> chopsticks s' ! c = 1) \<or>
          (\<exists>j. holders n s' c = {j} \<and> chopsticks s' ! c = 0)" if c: "c < n" for c
    proof (cases "c = c0")
      case True
      have "holders n s' c0 = {i}"
        unfolding s' using holders_update [OF i lp, of p' cs' c0] h' free by simp
      moreover have "chopsticks s' ! c0 = 0"
        using c0 lc one by (simp add: s' cs')
      ultimately show ?thesis using True by blast
    next
      case False
      then have "holders n s' c = holders n s c"
        unfolding s' using holders_same [OF i lp, of c p' cs'] h' by simp
      moreover have "chopsticks s' ! c = chopsticks s ! c"
        using False by (simp add: s' cs')
      ultimately show ?thesis using sem [OF c] by simp
    qed
    then show ?thesis
      using lp lc by (simp add: sem_inv_def s' cs')
  next
    case (Release c0)
    with eff have c0: "c0 < n" and isin: "c0 \<in> holding n i (phases s ! i)"
      and h': "holding n i p' = holding n i (phases s ! i) - {c0}"
      by simp_all
    from perform_Release [OF pf [unfolded Release]]
    have cs': "cs' = (chopsticks s)[c0 := 1]"
      by simp
    from isin i have "i \<in> holders n s c0"
      by (simp add: holders_mem)
    with sem [OF c0] have own: "holders n s c0 = {i}"
      by auto
    have "(holders n s' c = {} \<and> chopsticks s' ! c = 1) \<or>
          (\<exists>j. holders n s' c = {j} \<and> chopsticks s' ! c = 0)" if c: "c < n" for c
    proof (cases "c = c0")
      case True
      have "holders n s' c0 = {}"
        unfolding s' using holders_update [OF i lp, of p' cs' c0] h' own by simp
      moreover have "chopsticks s' ! c0 = 1"
        using c0 lc by (simp add: s' cs')
      ultimately show ?thesis using True by blast
    next
      case False
      then have "holders n s' c = holders n s c"
        unfolding s' using holders_same [OF i lp, of c p' cs'] h' by simp
      moreover have "chopsticks s' ! c = chopsticks s ! c"
        using False by (simp add: s' cs')
      ultimately show ?thesis using sem [OF c] by simp
    qed
    then show ?thesis
      using lp lc by (simp add: sem_inv_def s' cs')
  qed
qed


lemma count_inv_step:
  assumes inv: "count_inv n tr s" and lp: "length (phases s) = n" and n: "2 \<le> n" and i: "i < n"
    and st: "step n i s = Completed (st, s')"
  shows "count_inv n (tr @ [(i, st)]) s'"
proof -
  from st obtain p' cs' where ph: "philosopher n i (phases s ! i) = (st, p')"
    and s': "s' = \<lparr>phases = (phases s)[i := p'], chopsticks = cs'\<rparr>"
    by (rule step_Completed)
  note eff = philosopher_effect [OF n i ph]
  have "count_list (tr @ [(i, st)]) (j, Acquire c) =
        count_list (tr @ [(i, st)]) (j, Release c) + (if c \<in> holding n j (phases s' ! j) then 1 else 0)"
    if j: "j < n" for j c
  proof (cases "j = i")
    case False
    with inv j lp show ?thesis
      by (simp add: count_inv_def s')
  next
    case True
    from inv i have old: "count_list tr (i, Acquire c) =
        count_list tr (i, Release c) + (if c \<in> holding n i (phases s ! i) then 1 else 0)"
      by (simp add: count_inv_def)
    have new: "phases s' ! i = p'"
      using i lp by (simp add: s')
    show ?thesis
      unfolding True new using old eff by (cases st) auto
  qed
  then show ?thesis
    by (simp add: count_inv_def)
qed

lemma invariant_step:
  assumes "invariant n tr s" "2 \<le> n" "i < n" "step n i s = Completed (st, s')"
  shows "invariant n (tr @ [(i, st)]) s'"
  using assms sem_inv_step [of n s i st s'] count_inv_step [of n tr s i st s']
  by (simp add: invariant_def sem_inv_def)

lemma invariant_exec:
  "invariant n tr s \<Longrightarrow> 2 \<le> n \<Longrightarrow> exec n sched (tr, s) = Some (tr', s') \<Longrightarrow> invariant n tr' s'"
proof (induction sched arbitrary: tr s)
  case Nil
  then show ?case by simp
next
  case (Cons i sched)
  from Cons.prems(3) obtain st s1 where i: "i < n" and st: "step n i s = Completed (st, s1)"
    and rest: "exec n sched (tr @ [(i, st)], s1) = Some (tr', s')"
    by (auto split: if_splits outcome.splits prod.splits)
  from invariant_step [OF Cons.prems(1,2) i st] have "invariant n (tr @ [(i, st)]) s1" .
  from Cons.IH [OF this Cons.prems(2) rest] show ?case .
qed

lemma invariant_reachable:
  "2 \<le> n \<Longrightarrow> exec n sched ([], initial n) = Some (tr, s) \<Longrightarrow> invariant n tr s"
  using invariant_exec [OF invariant_initial] by blast

lemma holds_holding:
  "invariant n tr s \<Longrightarrow> i < n \<Longrightarrow> holds tr i c = (c \<in> holding n i (phases s ! i))"
  by (simp add: invariant_def count_inv_def holds_def)


lemma right_cases:
  "i < n \<Longrightarrow> (rightChopstick n i = i + 1 \<and> i + 1 < n) \<or> (rightChopstick n i = 0 \<and> i + 1 = n)"
proof (cases "i + 1 < n")
  case True
  then show ?thesis by (simp add: rightChopstick_def)
next
  case False
  assume "i < n"
  with False have "i + 1 = n" by simp
  then show ?thesis by (simp add: rightChopstick_def)
qed

lemma rank_order:
  assumes "2 \<le> n" "i < n" "philosopher n i p = (Acquire d, p')" "c \<in> holding n i p"
  shows "rank c < rank d"
proof -
  from assms(3,4) have p: "p = HoldingOne"
    by (cases p) (auto split: if_splits)
  show ?thesis
  proof (cases "i mod 2 = 0")
    case True
    with assms(3,4) p have c: "c = rightChopstick n i" and d: "d = i"
      by (simp_all add: leftChopstick_def)
    from right_cases [OF assms(2)] show ?thesis
    proof
      assume "rightChopstick n i = i + 1 \<and> i + 1 < n"
      with True c d show ?thesis
        by (simp add: rank_def; presburger)
    next
      assume "rightChopstick n i = 0 \<and> i + 1 = n"
      with True c d assms(1) show ?thesis
        by (auto simp: rank_def)
    qed
  next
    case False
    with assms(3,4) p have c: "c = i" and d: "d = rightChopstick n i"
      by (simp_all add: leftChopstick_def)
    from right_cases [OF assms(2)] show ?thesis
    proof
      assume "rightChopstick n i = i + 1 \<and> i + 1 < n"
      with False c d show ?thesis
        by (simp add: rank_def; presburger)
    next
      assume "rightChopstick n i = 0 \<and> i + 1 = n"
      with False c d show ?thesis
        by (simp add: rank_def; presburger)
    qed
  qed
qed

lemma perform_Blocked:
  "perform st cs = Blocked \<Longrightarrow> \<exists>c. st = Acquire c \<and> c < length cs \<and> cs ! c = 0"
  by (cases st) (auto simp: acquire_def release_def split: if_splits)

lemma blocked_Acquire:
  assumes "blocked n s i"
  obtains c p' where "philosopher n i (phases s ! i) = (Acquire c, p')"
    and "c < length (chopsticks s)" and "chopsticks s ! c = 0"
proof -
  obtain st p' where ph: "philosopher n i (phases s ! i) = (st, p')"
    by (cases "philosopher n i (phases s ! i)")
  with assms have "perform st (chopsticks s) = Blocked"
    by (simp add: blocked_def step_def split: outcome.splits)
  from perform_Blocked [OF this] ph that show ?thesis
    by blast
qed

lemma held_chopstick:
  assumes "sem_inv n s" "c < n" "chopsticks s ! c = 0"
  obtains i where "i < n" and "c \<in> holding n i (phases s ! i)"
proof -
  from assms obtain i where "holders n s c = {i}"
    by (auto simp: sem_inv_def)
  then have "i \<in> holders n s c" by simp
  then show ?thesis
    using that by (auto simp: holders_def)
qed

lemma not_all_blocked:
  assumes inv: "sem_inv n s" and n: "2 \<le> n"
  shows "\<exists>i<n. \<not> blocked n s i"
proof (rule ccontr)
  assume "\<not> ?thesis"
  then have all: "blocked n s i" if "i < n" for i
    using that by blast
  from inv have lc: "length (chopsticks s) = n"
    by (simp add: sem_inv_def)
  define H where "H = {c. c < n \<and> chopsticks s ! c = 0}"
  have fin: "finite (rank ` H)"
    by (simp add: H_def)
  from n have "blocked n s 0"
    by (intro all) simp
  then obtain c0 where "c0 \<in> H"
    using lc by (auto simp: H_def elim: blocked_Acquire)
  then have ne: "rank ` H \<noteq> {}"
    by blast
  from Max_in [OF fin ne] obtain c where c: "c \<in> H" and top: "rank c = Max (rank ` H)"
    by auto
  from c have "c < n" "chopsticks s ! c = 0"
    by (simp_all add: H_def)
  with inv obtain i where i: "i < n" and hold: "c \<in> holding n i (phases s ! i)"
    by (rule held_chopstick)
  from all [OF i] obtain d p' where ph: "philosopher n i (phases s ! i) = (Acquire d, p')"
    and d: "d < length (chopsticks s)" "chopsticks s ! d = 0"
    by (rule blocked_Acquire)
  from d lc have "d \<in> H"
    by (simp add: H_def)
  then have "rank d \<le> Max (rank ` H)"
    using fin by (intro Max_ge) auto
  moreover from rank_order [OF n i ph hold] have "rank c < rank d" .
  ultimately show False
    using top by simp
qed

lemma no_failure:
  assumes inv: "sem_inv n s" and n: "2 \<le> n" and i: "i < n"
  shows "step n i s \<noteq> Failed e"
proof -
  obtain st p' where ph: "philosopher n i (phases s ! i) = (st, p')"
    by (cases "philosopher n i (phases s ! i)")
  from inv have lc: "length (chopsticks s) = n"
    and sem: "\<And>c. c < n \<Longrightarrow> (holders n s c = {} \<and> chopsticks s ! c = 1) \<or>
              (\<exists>j. holders n s c = {j} \<and> chopsticks s ! c = 0)"
    by (auto simp: sem_inv_def)
  note eff = philosopher_effect [OF n i ph]
  have "perform st (chopsticks s) \<noteq> Failed e"
  proof (cases st)
    case (Acquire c)
    with eff lc show ?thesis
      by (simp add: acquire_def)
  next
    case (Release c)
    with eff have c: "c < n" and "c \<in> holding n i (phases s ! i)"
      by simp_all
    with i have "i \<in> holders n s c"
      by (simp add: holders_mem)
    with sem [OF c] have "chopsticks s ! c = 0"
      by auto
    with Release c lc show ?thesis
      by (simp add: release_def)
  qed simp_all
  with ph show ?thesis
    by (auto simp: step_def split: outcome.splits)
qed

section \<open>Executions\<close>


lemma holds_unique:
  assumes "invariant n tr s" "c < n" "i < n" "j < n" "holds tr i c" "holds tr j c"
  shows "i = j"
proof -
  from assms have "i \<in> holders n s c" "j \<in> holders n s c"
    by (simp_all add: holds_holding holders_mem)
  moreover from assms(1,2) have "holders n s c = {} \<or> (\<exists>k. holders n s c = {k})"
    by (auto simp: invariant_def sem_inv_def)
  ultimately show ?thesis by auto
qed

lemma chopstick_counter:
  assumes "invariant n tr s" "c < n"
  shows "chopsticks s ! c = (if \<exists>i<n. holds tr i c then 0 else 1)"
proof -
  have "(\<exists>i<n. holds tr i c) = (holders n s c \<noteq> {})"
    using assms(1) by (auto simp: holds_holding holders_def)
  moreover from assms have "(holders n s c = {} \<and> chopsticks s ! c = 1) \<or>
              (\<exists>j. holders n s c = {j} \<and> chopsticks s ! c = 0)"
    by (simp add: invariant_def sem_inv_def)
  ultimately show ?thesis by auto
qed

lemma holds_gained:
  "\<not> holds tr i c \<Longrightarrow> holds (tr @ [(k, st)]) i c \<Longrightarrow> k = i \<and> st = Acquire c"
  by (auto simp: holds_def split: if_splits)

lemma holds_lost:
  "holds tr i c \<Longrightarrow> \<not> holds (tr @ [(k, st)]) i c \<Longrightarrow> k = i \<and> st = Release c"
  by (auto simp: holds_def split: if_splits)

lemma step_Acquire:
  assumes "sem_inv n s" "c < n" "step n i s = Completed (Acquire c, s')"
  shows "chopsticks s ! c = 1 \<and> chopsticks s' ! c = 0"
proof -
  from assms(3) obtain p' cs' where pf: "perform (Acquire c) (chopsticks s) = Completed cs'"
    and s': "s' = \<lparr>phases = (phases s)[i := p'], chopsticks = cs'\<rparr>"
    by (rule step_Completed)
  from perform_Acquire [OF pf] have "0 < chopsticks s ! c" "cs' = (chopsticks s)[c := chopsticks s ! c - 1]"
    "c < length (chopsticks s)"
    by simp_all
  moreover from assms(1,2) have "chopsticks s ! c \<le> 1"
    by (auto simp: sem_inv_def)
  ultimately show ?thesis
    by (simp add: s')
qed

lemma step_Release:
  assumes "step n i s = Completed (Release c, s')"
  shows "chopsticks s' ! c = 1"
proof -
  from assms obtain p' cs' where pf: "perform (Release c) (chopsticks s) = Completed cs'"
    and s': "s' = \<lparr>phases = (phases s)[i := p'], chopsticks = cs'\<rparr>"
    by (rule step_Completed)
  from perform_Release [OF pf] show ?thesis
    by (simp add: s')
qed

lemma release_enabled:
  assumes sem: "sem_inv n s" and n: "2 \<le> n" and i: "i < n"
    and ph: "philosopher n i (phases s ! i) = (Release c, p')"
  shows "\<exists>s'. step n i s = Completed (Release c, s') \<and> phases s' ! i = p' \<and> chopsticks s' ! c = 1"
proof (cases "step n i s")
  case Blocked
  with ph have "perform (Release c) (chopsticks s) = Blocked"
    by (simp add: step_def del: perform.simps split: outcome.splits)
  from perform_Blocked [OF this] show ?thesis
    by simp
next
  case (Failed e)
  with no_failure [OF sem n i, of e] show ?thesis
    by simp
next
  case (Completed r)
  obtain st s' where r: "r = (st, s')"
    by (cases r)
  from Completed [unfolded r] obtain q cs' where ph': "philosopher n i (phases s ! i) = (st, q)"
    and s': "s' = \<lparr>phases = (phases s)[i := q], chopsticks = cs'\<rparr>"
    by (rule step_Completed)
  from ph ph' have st: "st = Release c" and q: "q = p'"
    by simp_all
  from sem i have "i < length (phases s)"
    by (simp add: sem_inv_def)
  then have "phases s' ! i = p'"
    by (simp add: s' q)
  moreover from Completed have "chopsticks s' ! c = 1"
    unfolding r st by (rule step_Release)
  ultimately show ?thesis
    using Completed r st by simp
qed

lemma idle_holds_nothing:
  assumes "invariant n tr s" "i < n" "phases s ! i = Thinking \<or> phases s ! i = Hungry"
  shows "\<not> holds tr i c"
  using assms by (auto simp: holds_holding)

lemma idle_chopstick:
  assumes inv: "invariant n tr s" and i: "i < n" and c: "c < n"
    and idle: "phases s ! i = Thinking \<or> phases s ! i = Hungry"
  shows "chopsticks s ! c = 1 \<or> (\<exists>j<n. j \<noteq> i \<and> holds tr j c)"
proof (cases "\<exists>j<n. holds tr j c")
  case True
  then obtain j where j: "j < n" "holds tr j c"
    by blast
  with idle_holds_nothing [OF inv i idle, of c] have "j \<noteq> i"
    by blast
  with j show ?thesis
    by blast
next
  case False
  with chopstick_counter [OF inv c] show ?thesis
    by simp
qed

section \<open>The ring\<close>

lemma pred_mod:
  assumes "c < n"
  shows "(c + n - Suc 0) mod n = (if c = 0 then n - Suc 0 else c - Suc 0)"
proof (cases "c = 0")
  case True
  from assms have "n - Suc 0 < n" by arith
  then have "(n - Suc 0) mod n = n - Suc 0" by (rule mod_less)
  with True show ?thesis by simp
next
  case False
  then have "c + n - Suc 0 = (c - Suc 0) + n" by arith
  then have "(c + n - Suc 0) mod n = (c - Suc 0) mod n" by simp
  moreover from assms have "c - Suc 0 < n" by arith
  ultimately show ?thesis using False by simp
qed

lemma right_eq_iff:
  assumes "c < n" "i < n"
  shows "(rightChopstick n i = c) = (i = (c + n - 1) mod n)"
  using right_cases [OF assms(2)] assms by (auto simp: pred_mod)

lemma users_set:
  assumes "c < n"
  shows "set (users n c) = {c, (c + n - 1) mod n}"
proof -
  define d where "d = (c + n - 1) mod n"
  from assms have d: "d < n"
    by (simp add: d_def)
  have "set (users n c) = {i. i < n \<and> (i = c \<or> rightChopstick n i = c)}"
    by (auto simp: users_def leftChopstick_def)
  also have "\<dots> = {i. i < n \<and> (i = c \<or> i = d)}"
    unfolding d_def using right_eq_iff [OF assms] by blast
  also have "\<dots> = {c, d}"
    using assms d by blast
  finally show ?thesis
    by (simp only: d_def)
qed

lemma users_length:
  assumes "2 \<le> n" "c < n"
  shows "length (users n c) = 2"
proof -
  have "distinct (users n c)"
    by (simp add: users_def)
  then have "length (users n c) = card (set (users n c))"
    by (simp add: distinct_card)
  also have "\<dots> = card {c, (c + n - 1) mod n}"
    by (simp add: users_set [OF assms(2)])
  also from assms have "c \<noteq> (c + n - 1) mod n"
    by (auto simp: pred_mod)
  then have "card {c, (c + n - 1) mod n} = 2"
    by simp
  finally show ?thesis .
qed

text \<open>
  Claim C4. For \<open>n \<ge> 2\<close> and \<open>i < n\<close>, the left chopstick of philosopher \<open>i\<close> is \<open>i\<close> and its
  right chopstick is \<open>(i + 1) mod n\<close>, two different chopsticks; and chopstick \<open>i\<close> is used by
  exactly two philosophers, \<open>i\<close> and its ring neighbour \<open>(i + n - 1) mod n\<close>.
\<close>

theorem ring_neighbours:
  assumes "2 \<le> n" and "i < n"
  shows "leftChopstick i = i \<and> rightChopstick n i = (i + 1) mod n \<and>
         leftChopstick i \<noteq> rightChopstick n i \<and>
         set (users n i) = {i, (i + n - 1) mod n} \<and> length (users n i) = 2"
  using right_neq_left [OF assms] users_set [OF assms(2)] users_length [OF assms]
  by (simp add: leftChopstick_def rightChopstick_def)

theorem ring_neighbours_witness:
  "2 \<le> NUM_PHILOSOPHERS \<and> 0 < NUM_PHILOSOPHERS \<and>
   leftChopstick 0 = 0 \<and> rightChopstick NUM_PHILOSOPHERS 0 = 1 \<and>
   users NUM_PHILOSOPHERS 0 = [0, 4] \<and> set (users NUM_PHILOSOPHERS 0) = {0, 4}"
proof -
  have n: "2 \<le> NUM_PHILOSOPHERS" "0 < NUM_PHILOSOPHERS"
    by (simp_all add: NUM_PHILOSOPHERS_def)
  have u: "users NUM_PHILOSOPHERS 0 = [0, 4]"
    by code_simp
  from ring_neighbours [OF n] have "leftChopstick 0 = 0" "rightChopstick NUM_PHILOSOPHERS 0 = 1"
    "set (users NUM_PHILOSOPHERS 0) = {0, 4}"
    by (simp_all add: NUM_PHILOSOPHERS_def)
  with n u show ?thesis
    by (intro conjI)
qed

text \<open>
  Claim C10. For a philosopher id \<open>i\<close> below \<^verbatim>\<open>NUM_PHILOSOPHERS\<close>, the indices
  \<^verbatim>\<open>leftChopstick\<close> and \<^verbatim>\<open>rightChopstick\<close> are below \<^verbatim>\<open>NUM_PHILOSOPHERS\<close>, which is the
  length of the array of chopsticks in the initial state and in every state an execution
  reaches; so no step of the philosopher indexes the array out of bounds.
\<close>

theorem chopstick_indices_in_bounds:
  assumes "i < NUM_PHILOSOPHERS"
  shows "leftChopstick i < NUM_PHILOSOPHERS \<and> rightChopstick NUM_PHILOSOPHERS i < NUM_PHILOSOPHERS \<and>
         length (chopsticks (initial NUM_PHILOSOPHERS)) = NUM_PHILOSOPHERS \<and>
         (\<forall>sched tr s. exec NUM_PHILOSOPHERS sched ([], initial NUM_PHILOSOPHERS) = Some (tr, s) \<longrightarrow>
            length (chopsticks s) = NUM_PHILOSOPHERS \<and> step NUM_PHILOSOPHERS i s \<noteq> Failed OutOfBounds)"
proof -
  have n: "2 \<le> NUM_PHILOSOPHERS"
    by (simp add: NUM_PHILOSOPHERS_def)
  have "length (chopsticks s) = NUM_PHILOSOPHERS \<and> step NUM_PHILOSOPHERS i s \<noteq> Failed OutOfBounds"
    if "exec NUM_PHILOSOPHERS sched ([], initial NUM_PHILOSOPHERS) = Some (tr, s)" for sched tr s
  proof -
    from invariant_reachable [OF n that] have sem: "sem_inv NUM_PHILOSOPHERS s"
      by (simp add: invariant_def)
    with no_failure [OF sem n assms] show ?thesis
      by (simp add: sem_inv_def)
  qed
  moreover have "length (chopsticks (initial NUM_PHILOSOPHERS)) = NUM_PHILOSOPHERS"
    by (simp add: initial_def chopsticks_init_def)
  moreover from assms have "leftChopstick i < NUM_PHILOSOPHERS"
    by (rule left_less)
  moreover from n have "rightChopstick NUM_PHILOSOPHERS i < NUM_PHILOSOPHERS"
    by (intro right_less) simp
  ultimately show ?thesis
    by blast
qed

theorem chopstick_indices_in_bounds_witness:
  "4 < NUM_PHILOSOPHERS \<and> leftChopstick 4 = 4 \<and> rightChopstick NUM_PHILOSOPHERS 4 = 0 \<and>
   leftChopstick 4 < NUM_PHILOSOPHERS \<and> rightChopstick NUM_PHILOSOPHERS 4 < NUM_PHILOSOPHERS \<and>
   length (chopsticks (initial NUM_PHILOSOPHERS)) = NUM_PHILOSOPHERS"
proof -
  have i: "4 < NUM_PHILOSOPHERS"
    by (simp add: NUM_PHILOSOPHERS_def)
  have v: "leftChopstick 4 = 4" "rightChopstick NUM_PHILOSOPHERS 4 = 0"
    by (simp_all add: NUM_PHILOSOPHERS_def leftChopstick_def rightChopstick_def)
  from chopstick_indices_in_bounds [OF i]
  have "leftChopstick 4 < NUM_PHILOSOPHERS" "rightChopstick NUM_PHILOSOPHERS 4 < NUM_PHILOSOPHERS"
    "length (chopsticks (initial NUM_PHILOSOPHERS)) = NUM_PHILOSOPHERS"
    by blast+
  with i v show ?thesis
    by (intro conjI)
qed

section \<open>The orchestrator\<close>

text \<open>
  Claim C9. The count is 5. \<^verbatim>\<open>main\<close> launches the five philosophers with the ids
  0, 1, 2, 3, 4, each once; the array of chopsticks has five semaphores, all available, and
  every philosopher starts thinking.
\<close>

theorem orchestrator_launch:
  "NUM_PHILOSOPHERS = 5 \<and>
   main NUM_PHILOSOPHERS = [0, 1, 2, 3, 4] \<and>
   length (main NUM_PHILOSOPHERS) = NUM_PHILOSOPHERS \<and>
   distinct (main NUM_PHILOSOPHERS) \<and>
   chopsticks (initial NUM_PHILOSOPHERS) = [1, 1, 1, 1, 1] \<and>
   phases (initial NUM_PHILOSOPHERS) = [Thinking, Thinking, Thinking, Thinking, Thinking]"
proof -
  have m: "main NUM_PHILOSOPHERS = [0, 1, 2, 3, 4]"
    by code_simp
  have c: "chopsticks (initial NUM_PHILOSOPHERS) = [1, 1, 1, 1, 1]"
    by code_simp
  have p: "phases (initial NUM_PHILOSOPHERS) = [Thinking, Thinking, Thinking, Thinking, Thinking]"
    by code_simp
  from m c p show ?thesis
    by (simp add: NUM_PHILOSOPHERS_def)
qed

section \<open>Mutual exclusion\<close>

text \<open>
  Claim C2. In every state that an execution of \<open>n \<ge> 2\<close> philosophers reaches, a chopstick
  \<open>c\<close> is held by at most one philosopher, and its semaphore is 0 exactly when somebody
  holds it. Whatever step comes next, a philosopher comes to hold \<open>c\<close> only by its own
  \<^verbatim>\<open>acquire\<close> on \<open>c\<close>, which finds the semaphore at 1 and leaves it at 0, and ceases to
  hold \<open>c\<close> only by its own \<^verbatim>\<open>release\<close> on \<open>c\<close>, which leaves the semaphore at 1.
\<close>

theorem mutual_exclusion:
  assumes "exec n sched ([], initial n) = Some (tr, s)" and "2 \<le> n" and "c < n"
  shows "(\<forall>i<n. \<forall>j<n. holds tr i c \<and> holds tr j c \<longrightarrow> i = j) \<and>
         chopsticks s ! c = (if \<exists>i<n. holds tr i c then 0 else 1) \<and>
         (\<forall>k st s' i. k < n \<and> step n k s = Completed (st, s') \<longrightarrow>
            (\<not> holds tr i c \<and> holds (tr @ [(k, st)]) i c \<longrightarrow>
               i = k \<and> st = Acquire c \<and> chopsticks s ! c = 1 \<and> chopsticks s' ! c = 0) \<and>
            (holds tr i c \<and> \<not> holds (tr @ [(k, st)]) i c \<longrightarrow>
               i = k \<and> st = Release c \<and> chopsticks s' ! c = 1))"
proof -
  from assms(1,2) have inv: "invariant n tr s"
    by (simp add: invariant_reachable)
  then have sem: "sem_inv n s"
    by (simp add: invariant_def)
  have "\<forall>i<n. \<forall>j<n. holds tr i c \<and> holds tr j c \<longrightarrow> i = j"
    using holds_unique [OF inv assms(3)] by blast
  moreover have "chopsticks s ! c = (if \<exists>i<n. holds tr i c then 0 else 1)"
    by (rule chopstick_counter [OF inv assms(3)])
  moreover have "i = k \<and> st = Acquire c \<and> chopsticks s ! c = 1 \<and> chopsticks s' ! c = 0"
    if "step n k s = Completed (st, s')" "\<not> holds tr i c" "holds (tr @ [(k, st)]) i c"
    for k st s' i
    using holds_gained [OF that(2,3)] step_Acquire [OF sem assms(3), of k s'] that(1) by simp
  moreover have "i = k \<and> st = Release c \<and> chopsticks s' ! c = 1"
    if "step n k s = Completed (st, s')" "holds tr i c" "\<not> holds (tr @ [(k, st)]) i c"
    for k st s' i
    using holds_lost [OF that(2,3)] step_Release [of n k s c s'] that(1) by simp
  ultimately show ?thesis
    by blast
qed

theorem mutual_exclusion_witness:
  "exec NUM_PHILOSOPHERS [0, 0, 1] ([], initial NUM_PHILOSOPHERS) =
     Some ([(0, Think), (0, Acquire 1), (1, Think)],
           \<lparr>phases = [HoldingOne, Hungry, Thinking, Thinking, Thinking], chopsticks = [1, 0, 1, 1, 1]\<rparr>) \<and>
   2 \<le> NUM_PHILOSOPHERS \<and> 1 < NUM_PHILOSOPHERS \<and>
   holds [(0, Think), (0, Acquire 1), (1, Think)] 0 1 \<and>
   [1, 0, 1, 1, 1] ! 1 = (if \<exists>i<NUM_PHILOSOPHERS. holds [(0, Think), (0, Acquire 1), (1, Think)] i 1 then 0 else (1::nat))"
proof -
  let ?tr = "[(0, Think), (0, Acquire 1), (1, Think)]"
  let ?s = "\<lparr>phases = [HoldingOne, Hungry, Thinking, Thinking, Thinking], chopsticks = [1, 0, 1, 1, 1]\<rparr>"
  have e: "exec NUM_PHILOSOPHERS [0, 0, 1] ([], initial NUM_PHILOSOPHERS) = Some (?tr, ?s)"
    by code_simp
  have n: "2 \<le> NUM_PHILOSOPHERS" "1 < NUM_PHILOSOPHERS"
    by (simp_all add: NUM_PHILOSOPHERS_def)
  have h: "holds ?tr 0 1"
    by (simp add: holds_def)
  from mutual_exclusion [OF e n]
  have "chopsticks ?s ! 1 = (if \<exists>i<NUM_PHILOSOPHERS. holds ?tr i 1 then 0 else 1)"
    by (rule conjunct2 [THEN conjunct1])
  then have "[1, 0, 1, 1, 1] ! 1 = (if \<exists>i<NUM_PHILOSOPHERS. holds ?tr i 1 then 0 else (1::nat))"
    by simp
  with e n h show ?thesis
    by (intro conjI)
qed

text \<open>
  Claim C5. In every reachable state with \<open>n \<ge> 2\<close>, philosopher \<open>i\<close> and its ring
  neighbour \<open>(i + 1) mod n\<close> are not both at the program point \<open>Eating\<close>: both would hold
  the chopstick between them.
\<close>

theorem no_adjacent_eating:
  assumes "exec n sched ([], initial n) = Some (tr, s)" and "2 \<le> n" and "i < n"
  shows "\<not> (phases s ! i = Eating \<and> phases s ! ((i + 1) mod n) = Eating)"
proof
  assume eat: "phases s ! i = Eating \<and> phases s ! ((i + 1) mod n) = Eating"
  from assms(1,2) have inv: "invariant n tr s"
    by (simp add: invariant_reachable)
  define j where "j = (i + 1) mod n"
  from assms(2) have j: "j < n"
    by (simp add: j_def)
  from eat have e1: "phases s ! i = Eating" and e2: "phases s ! j = Eating"
    by (simp_all add: j_def)
  have c: "j = rightChopstick n i"
    by (simp add: j_def rightChopstick_def)
  have "j \<in> holding n i (phases s ! i)"
    unfolding e1 by (simp add: c)
  moreover have "j \<in> holding n j (phases s ! j)"
    unfolding e2 by (simp add: leftChopstick_def)
  ultimately have "holds tr i j" "holds tr j j"
    using inv assms(3) j by (simp_all add: holds_holding)
  from holds_unique [OF inv j assms(3) j this] have "i = j" .
  with c have "rightChopstick n i = leftChopstick i"
    unfolding leftChopstick_def by (rule trans [OF sym sym])
  with right_neq_left [OF assms(2,3)] show False ..
qed

theorem no_adjacent_eating_witness:
  "exec NUM_PHILOSOPHERS [0, 0, 0] ([], initial NUM_PHILOSOPHERS) =
     Some ([(0, Think), (0, Acquire 1), (0, Acquire 0)],
           \<lparr>phases = [Eating, Thinking, Thinking, Thinking, Thinking], chopsticks = [0, 0, 1, 1, 1]\<rparr>) \<and>
   2 \<le> NUM_PHILOSOPHERS \<and> 0 < NUM_PHILOSOPHERS \<and>
   \<not> ([Eating, Thinking, Thinking, Thinking, Thinking] ! 0 = Eating \<and>
      [Eating, Thinking, Thinking, Thinking, Thinking] ! ((0 + 1) mod NUM_PHILOSOPHERS) = Eating)"
proof -
  let ?tr = "[(0, Think), (0, Acquire 1), (0, Acquire 0)]"
  let ?s = "\<lparr>phases = [Eating, Thinking, Thinking, Thinking, Thinking], chopsticks = [0, 0, 1, 1, 1]\<rparr>"
  have e: "exec NUM_PHILOSOPHERS [0, 0, 0] ([], initial NUM_PHILOSOPHERS) = Some (?tr, ?s)"
    by code_simp
  have n: "2 \<le> NUM_PHILOSOPHERS" "0 < NUM_PHILOSOPHERS"
    by (simp_all add: NUM_PHILOSOPHERS_def)
  from no_adjacent_eating [OF e n]
  have "\<not> (phases ?s ! 0 = Eating \<and> phases ?s ! ((0 + 1) mod NUM_PHILOSOPHERS) = Eating)" .
  then have "\<not> ([Eating, Thinking, Thinking, Thinking, Thinking] ! 0 = Eating \<and>
      [Eating, Thinking, Thinking, Thinking, Thinking] ! ((0 + 1) mod NUM_PHILOSOPHERS) = Eating)"
    by simp
  with e n show ?thesis
    by (intro conjI)
qed

section \<open>Deadlock freedom\<close>

text \<open>
  Claim C1. In every state that an execution of \<open>n \<ge> 2\<close> philosopher threads reaches
  under the even/odd acquisition order, some philosopher can take its next step: the
  philosophers are never all blocked in \<^verbatim>\<open>acquire\<close>, and the wait-for relation never
  gives every philosopher somebody to wait for. The program has \<open>n = 5\<close>.
\<close>

theorem deadlock_freedom:
  assumes "exec n sched ([], initial n) = Some (tr, s)" and "2 \<le> n"
  shows "(\<exists>i<n. \<exists>st s'. step n i s = Completed (st, s')) \<and>
         \<not> (\<forall>i<n. blocked n s i) \<and>
         \<not> (\<forall>i<n. \<exists>j<n. waits_for n tr s i j)"
proof -
  from assms have "invariant n tr s"
    by (simp add: invariant_reachable)
  then have sem: "sem_inv n s"
    by (simp add: invariant_def)
  from not_all_blocked [OF sem assms(2)] obtain i where i: "i < n" and nb: "\<not> blocked n s i"
    by blast
  from nb no_failure [OF sem assms(2) i] obtain st s' where "step n i s = Completed (st, s')"
    by (cases "step n i s") (auto simp: blocked_def)
  with i have "\<exists>i<n. \<exists>st s'. step n i s = Completed (st, s')"
    by blast
  moreover from i nb have "\<not> (\<forall>i<n. blocked n s i)"
    by blast
  moreover from i nb have "\<not> (\<forall>i<n. \<exists>j<n. waits_for n tr s i j)"
    by (auto simp: waits_for_def)
  ultimately show ?thesis
    by blast
qed

theorem deadlock_freedom_witness:
  "exec NUM_PHILOSOPHERS [0, 1, 2, 3, 4, 0, 2, 4] ([], initial NUM_PHILOSOPHERS) =
     Some ([(0, Think), (1, Think), (2, Think), (3, Think), (4, Think),
            (0, Acquire 1), (2, Acquire 3), (4, Acquire 0)],
           \<lparr>phases = [HoldingOne, Hungry, HoldingOne, Hungry, HoldingOne], chopsticks = [0, 0, 1, 0, 1]\<rparr>) \<and>
   2 \<le> NUM_PHILOSOPHERS \<and>
   blocked NUM_PHILOSOPHERS
     \<lparr>phases = [HoldingOne, Hungry, HoldingOne, Hungry, HoldingOne], chopsticks = [0, 0, 1, 0, 1]\<rparr> 0 \<and>
   (\<exists>i<NUM_PHILOSOPHERS. \<exists>st s'. step NUM_PHILOSOPHERS i
     \<lparr>phases = [HoldingOne, Hungry, HoldingOne, Hungry, HoldingOne], chopsticks = [0, 0, 1, 0, 1]\<rparr> =
       Completed (st, s'))"
proof -
  let ?tr = "[(0, Think), (1, Think), (2, Think), (3, Think), (4, Think),
            (0, Acquire 1), (2, Acquire 3), (4, Acquire 0)]"
  let ?s = "\<lparr>phases = [HoldingOne, Hungry, HoldingOne, Hungry, HoldingOne], chopsticks = [0, 0, 1, 0, 1]\<rparr>"
  have e: "exec NUM_PHILOSOPHERS [0, 1, 2, 3, 4, 0, 2, 4] ([], initial NUM_PHILOSOPHERS) = Some (?tr, ?s)"
    by code_simp
  have n: "2 \<le> NUM_PHILOSOPHERS"
    by (simp add: NUM_PHILOSOPHERS_def)
  have b: "blocked NUM_PHILOSOPHERS ?s 0"
    by code_simp
  from deadlock_freedom [OF e n]
  have "\<exists>i<NUM_PHILOSOPHERS. \<exists>st s'. step NUM_PHILOSOPHERS i ?s = Completed (st, s')"
    by (rule conjunct1)
  with e n b show ?thesis
    by (intro conjI)
qed

section \<open>The order of acquisition\<close>













section \<open>Release\<close>

text \<open>
  Claim C6 says that after a philosopher has put down its chopsticks both are available.
  The two releases are two steps, and a neighbour can run between them. Here philosopher 0
  eats and releases its left chopstick 0; philosopher 4, whose first choice is chopstick 0,
  acquires it; then philosopher 0 releases its right chopstick 1 and is back in \<open>Thinking\<close>.
  At that moment chopstick 0 is not available.
\<close>

theorem release_restores_counterexample:
  "exec NUM_PHILOSOPHERS [0, 0, 0, 0, 0, 4, 4, 0] ([], initial NUM_PHILOSOPHERS) =
     Some ([(0, Think), (0, Acquire 1), (0, Acquire 0), (0, Eat), (0, Release 0),
            (4, Think), (4, Acquire 0), (0, Release 1)],
           \<lparr>phases = [Thinking, Thinking, Thinking, Thinking, HoldingOne], chopsticks = [0, 1, 1, 1, 1]\<rparr>) \<and>
   leftChopstick 0 = 0 \<and> rightChopstick NUM_PHILOSOPHERS 0 = 1 \<and>
   phases \<lparr>phases = [Thinking, Thinking, Thinking, Thinking, HoldingOne], chopsticks = [0, 1, 1, 1, 1]\<rparr> ! 0 = Thinking \<and>
   chopsticks \<lparr>phases = [Thinking, Thinking, Thinking, Thinking, HoldingOne], chopsticks = [0, 1, 1, 1, 1]\<rparr> !
     leftChopstick 0 \<noteq> 1"
proof -
  have "exec NUM_PHILOSOPHERS [0, 0, 0, 0, 0, 4, 4, 0] ([], initial NUM_PHILOSOPHERS) =
     Some ([(0, Think), (0, Acquire 1), (0, Acquire 0), (0, Eat), (0, Release 0),
            (4, Think), (4, Acquire 0), (0, Release 1)],
           \<lparr>phases = [Thinking, Thinking, Thinking, Thinking, HoldingOne], chopsticks = [0, 1, 1, 1, 1]\<rparr>)"
    by code_simp
  then show ?thesis
    by (simp add: leftChopstick_def rightChopstick_def NUM_PHILOSOPHERS_def)
qed

text \<open>
  Claim C6, as the program has it. After \<^verbatim>\<open>eat\<close> the philosopher releases its left and
  then its right chopstick and then thinks again. In a reachable state with \<open>n \<ge> 2\<close>, each
  of the two releases can be taken and leaves the released chopstick available at that
  moment. A philosopher that is \<open>Thinking\<close> or \<open>Hungry\<close> holds no chopstick, so none is
  carried into the next round, and each of its two chopsticks is then available or held by
  another philosopher.
\<close>

theorem release_restores:
  assumes "exec n sched ([], initial n) = Some (tr, s)" and "2 \<le> n" and "i < n"
  shows "philosopher n i Eating = (Eat, PutLeft) \<and>
         philosopher n i PutLeft = (Release (leftChopstick i), PutRight) \<and>
         philosopher n i PutRight = (Release (rightChopstick n i), Thinking) \<and>
         (phases s ! i = PutLeft \<longrightarrow>
            (\<exists>s'. step n i s = Completed (Release (leftChopstick i), s') \<and>
                  phases s' ! i = PutRight \<and> chopsticks s' ! leftChopstick i = 1)) \<and>
         (phases s ! i = PutRight \<longrightarrow>
            (\<exists>s'. step n i s = Completed (Release (rightChopstick n i), s') \<and>
                  phases s' ! i = Thinking \<and> chopsticks s' ! rightChopstick n i = 1)) \<and>
         (phases s ! i = Thinking \<or> phases s ! i = Hungry \<longrightarrow>
            (\<forall>c. \<not> holds tr i c) \<and>
            (chopsticks s ! leftChopstick i = 1 \<or> (\<exists>j<n. j \<noteq> i \<and> holds tr j (leftChopstick i))) \<and>
            (chopsticks s ! rightChopstick n i = 1 \<or> (\<exists>j<n. j \<noteq> i \<and> holds tr j (rightChopstick n i))))"
proof -
  from assms(1,2) have inv: "invariant n tr s"
    by (simp add: invariant_reachable)
  then have sem: "sem_inv n s"
    by (simp add: invariant_def)
  have l: "leftChopstick i < n"
    using assms(3) by (rule left_less)
  have r: "rightChopstick n i < n"
    using assms(2) by (intro right_less) simp
  have "\<exists>s'. step n i s = Completed (Release (leftChopstick i), s') \<and>
                  phases s' ! i = PutRight \<and> chopsticks s' ! leftChopstick i = 1"
    if "phases s ! i = PutLeft"
    using release_enabled [OF sem assms(2,3), of "leftChopstick i" PutRight] that by simp
  moreover have "\<exists>s'. step n i s = Completed (Release (rightChopstick n i), s') \<and>
                  phases s' ! i = Thinking \<and> chopsticks s' ! rightChopstick n i = 1"
    if "phases s ! i = PutRight"
    using release_enabled [OF sem assms(2,3), of "rightChopstick n i" Thinking] that by simp
  moreover have "(\<forall>c. \<not> holds tr i c) \<and>
            (chopsticks s ! leftChopstick i = 1 \<or> (\<exists>j<n. j \<noteq> i \<and> holds tr j (leftChopstick i))) \<and>
            (chopsticks s ! rightChopstick n i = 1 \<or> (\<exists>j<n. j \<noteq> i \<and> holds tr j (rightChopstick n i)))"
    if idle: "phases s ! i = Thinking \<or> phases s ! i = Hungry"
    using idle_holds_nothing [OF inv assms(3) idle] idle_chopstick [OF inv assms(3) l idle]
      idle_chopstick [OF inv assms(3) r idle]
    by blast
  ultimately show ?thesis
    by simp
qed

theorem release_restores_witness:
  "exec NUM_PHILOSOPHERS [0, 0, 0, 0, 0] ([], initial NUM_PHILOSOPHERS) =
     Some ([(0, Think), (0, Acquire 1), (0, Acquire 0), (0, Eat), (0, Release 0)],
           \<lparr>phases = [PutRight, Thinking, Thinking, Thinking, Thinking], chopsticks = [1, 0, 1, 1, 1]\<rparr>) \<and>
   2 \<le> NUM_PHILOSOPHERS \<and> 0 < NUM_PHILOSOPHERS \<and>
   rightChopstick NUM_PHILOSOPHERS 0 = 1 \<and>
   (\<exists>s'. step NUM_PHILOSOPHERS 0
            \<lparr>phases = [PutRight, Thinking, Thinking, Thinking, Thinking], chopsticks = [1, 0, 1, 1, 1]\<rparr> =
            Completed (Release 1, s') \<and>
          phases s' ! 0 = Thinking \<and> chopsticks s' ! 1 = 1)"
proof -
  let ?tr = "[(0, Think), (0, Acquire 1), (0, Acquire 0), (0, Eat), (0, Release 0)]"
  let ?s = "\<lparr>phases = [PutRight, Thinking, Thinking, Thinking, Thinking], chopsticks = [1, 0, 1, 1, 1]\<rparr>"
  have e: "exec NUM_PHILOSOPHERS [0, 0, 0, 0, 0] ([], initial NUM_PHILOSOPHERS) = Some (?tr, ?s)"
    by code_simp
  have n: "2 \<le> NUM_PHILOSOPHERS" "0 < NUM_PHILOSOPHERS"
    by (simp_all add: NUM_PHILOSOPHERS_def)
  have r: "rightChopstick NUM_PHILOSOPHERS 0 = 1"
    by (simp add: NUM_PHILOSOPHERS_def rightChopstick_def)
  have p: "phases ?s ! 0 = PutRight"
    by simp
  from release_restores [OF e n] p
  have "\<exists>s'. step NUM_PHILOSOPHERS 0 ?s = Completed (Release (rightChopstick NUM_PHILOSOPHERS 0), s') \<and>
          phases s' ! 0 = Thinking \<and> chopsticks s' ! rightChopstick NUM_PHILOSOPHERS 0 = 1"
    by blast
  then have "\<exists>s'. step NUM_PHILOSOPHERS 0 ?s = Completed (Release 1, s') \<and>
          phases s' ! 0 = Thinking \<and> chopsticks s' ! 1 = 1"
    unfolding r .
  with e n r show ?thesis
    by (intro conjI)
qed

section \<open>The contract of the semaphores\<close>

text \<open>
  Claim C7. In every reachable state with \<open>n \<ge> 2\<close>, the next step of a philosopher is no
  protocol violation: it does not fail, a \<^verbatim>\<open>release\<close> it is about to call is on a chopstick
  it holds, and an \<^verbatim>\<open>acquire\<close> it is about to call is on a chopstick it does not hold.
\<close>

theorem no_protocol_violation:
  assumes "exec n sched ([], initial n) = Some (tr, s)" and "2 \<le> n" and "i < n"
  shows "step n i s \<noteq> Failed ProtocolViolation \<and>
         (\<forall>c. fst (philosopher n i (phases s ! i)) = Release c \<longrightarrow> holds tr i c) \<and>
         (\<forall>c. fst (philosopher n i (phases s ! i)) = Acquire c \<longrightarrow> \<not> holds tr i c)"
proof -
  from assms(1,2) have inv: "invariant n tr s"
    by (simp add: invariant_reachable)
  then have sem: "sem_inv n s"
    by (simp add: invariant_def)
  obtain st p' where ph: "philosopher n i (phases s ! i) = (st, p')"
    by (cases "philosopher n i (phases s ! i)")
  from philosopher_effect [OF assms(2,3) ph] ph
  have "(\<forall>c. fst (philosopher n i (phases s ! i)) = Release c \<longrightarrow> holds tr i c) \<and>
        (\<forall>c. fst (philosopher n i (phases s ! i)) = Acquire c \<longrightarrow> \<not> holds tr i c)"
    by (auto simp: holds_holding [OF inv assms(3)])
  with no_failure [OF sem assms(2,3)] show ?thesis
    by simp
qed

theorem no_protocol_violation_witness:
  "exec NUM_PHILOSOPHERS [0, 0, 0, 0] ([], initial NUM_PHILOSOPHERS) =
     Some ([(0, Think), (0, Acquire 1), (0, Acquire 0), (0, Eat)],
           \<lparr>phases = [PutLeft, Thinking, Thinking, Thinking, Thinking], chopsticks = [0, 0, 1, 1, 1]\<rparr>) \<and>
   2 \<le> NUM_PHILOSOPHERS \<and> 0 < NUM_PHILOSOPHERS \<and>
   fst (philosopher NUM_PHILOSOPHERS 0 PutLeft) = Release 0 \<and>
   holds [(0, Think), (0, Acquire 1), (0, Acquire 0), (0, Eat)] 0 0 \<and>
   step NUM_PHILOSOPHERS 0
     \<lparr>phases = [PutLeft, Thinking, Thinking, Thinking, Thinking], chopsticks = [0, 0, 1, 1, 1]\<rparr> \<noteq>
     Failed ProtocolViolation"
proof -
  let ?tr = "[(0, Think), (0, Acquire 1), (0, Acquire 0), (0, Eat)]"
  let ?s = "\<lparr>phases = [PutLeft, Thinking, Thinking, Thinking, Thinking], chopsticks = [0, 0, 1, 1, 1]\<rparr>"
  have e: "exec NUM_PHILOSOPHERS [0, 0, 0, 0] ([], initial NUM_PHILOSOPHERS) = Some (?tr, ?s)"
    by code_simp
  have n: "2 \<le> NUM_PHILOSOPHERS" "0 < NUM_PHILOSOPHERS"
    by (simp_all add: NUM_PHILOSOPHERS_def)
  have r: "fst (philosopher NUM_PHILOSOPHERS 0 PutLeft) = Release 0"
    by (simp add: leftChopstick_def)
  note inst = no_protocol_violation [OF e n]
  from inst have f: "step NUM_PHILOSOPHERS 0 ?s \<noteq> Failed ProtocolViolation"
    by (rule conjunct1)
  from inst r have h: "holds ?tr 0 0"
    by simp
  from e n r h f show ?thesis
    by (intro conjI)
qed

end
